theory Spec2Isabelle
  imports Main "HOL-Library.Word"
begin

section \<open>Data model of the drawing component\<close>

text \<open>
  The component \<^verbatim>\<open>DrawingCanvas\<close> (src/DrawingCanvas.tsx) keeps a canvas, the
  active colour (a hex string), a list of snapshots and a cursor into it. The file holds
  two variants of the component: the first one (lines 45-698) keeps 50 snapshots and its
  flood fill has no iteration counter, the second one (lines 743-1552) keeps 30 snapshots
  and stops the flood fill after \<^verbatim>\<open>maxIterations\<close> rounds of its loop.
\<close>

text \<open>
  An \<^verbatim>\<open>ImageData\<close>: \<^verbatim>\<open>data\<close> is a \<^verbatim>\<open>Uint8ClampedArray\<close> holding
  four bytes (red, green, blue, alpha) per pixel, row by row.
\<close>

record imagedata =
  img_width :: nat
  img_height :: nat
  img_data :: "8 word list"

text \<open>\<^verbatim>\<open>interface DrawingState { imageData: ImageData; timestamp: number; }\<close>\<close>

record drawingState =
  imageData :: imagedata
  timestamp :: nat

text \<open>
  The colour objects \<^verbatim>\<open>{ r, g, b, a }\<close> built by \<^verbatim>\<open>getPixelColor\<close> and
  \<^verbatim>\<open>hexToRgb\<close>. A channel is a byte, or \<^verbatim>\<open>undefined\<close> (\<open>None\<close>) when
  \<^verbatim>\<open>getPixelColor\<close> read outside the array.
\<close>

record rgba =
  chan_r :: "8 word option"
  chan_g :: "8 word option"
  chan_b :: "8 word option"
  chan_a :: "8 word option"

text \<open>
  The state of the component: the canvas with its 2D context (\<open>None\<close> while
  \<^verbatim>\<open>canvasRef.current\<close> or \<^verbatim>\<open>ctxRef.current\<close> is null), and the
  \<^verbatim>\<open>useState\<close> cells \<^verbatim>\<open>color\<close>, \<^verbatim>\<open>history\<close>, \<^verbatim>\<open>historyStep\<close>.
\<close>

record component =
  canvasRef :: "imagedata option"
  color :: string
  history :: "drawingState list"
  historyStep :: int

text \<open>The only exception the modelled handlers can raise: reading a field of \<^verbatim>\<open>undefined\<close>.\<close>

datatype error = TypeError

section \<open>Colour helpers\<close>

text \<open>\<^verbatim>\<open>pixels[i]\<close> on a typed array: \<^verbatim>\<open>undefined\<close> outside \<open>0 .. length - 1\<close>.\<close>

definition byteAt :: "8 word list \<Rightarrow> int \<Rightarrow> 8 word option" where
  "byteAt pixels i = (if 0 \<le> i \<and> i < int (length pixels) then Some (pixels ! nat i) else None)"

text \<open>
  \<^verbatim>\<open>pixels[i] = v\<close> on a \<^verbatim>\<open>Uint8ClampedArray\<close>: a write outside the array is
  ignored (a typed array never grows), and \<^verbatim>\<open>undefined\<close> is stored as 0.
\<close>

definition storeByte :: "8 word list \<Rightarrow> int \<Rightarrow> 8 word option \<Rightarrow> 8 word list" where
  "storeByte pixels i v =
     (if 0 \<le> i \<and> i < int (length pixels)
      then pixels[nat i := (case v of None \<Rightarrow> 0 | Some b \<Rightarrow> b)] else pixels)"

text \<open>src/DrawingCanvas.tsx, lines 372-380.\<close>

definition getPixelColor :: "8 word list \<Rightarrow> int \<Rightarrow> int \<Rightarrow> nat \<Rightarrow> rgba" where
  "getPixelColor pixels x y width =
     (let index = (y * int width + x) * 4 in
      \<lparr>chan_r = byteAt pixels index,
       chan_g = byteAt pixels (index + 1),
       chan_b = byteAt pixels (index + 2),
       chan_a = byteAt pixels (index + 3)\<rparr>)"

text \<open>src/DrawingCanvas.tsx, lines 385-397.\<close>

definition setPixelColor :: "8 word list \<Rightarrow> int \<Rightarrow> int \<Rightarrow> nat \<Rightarrow> rgba \<Rightarrow> 8 word list" where
  "setPixelColor pixels x y width c =
     (let index = (y * int width + x) * 4;
          p1 = storeByte pixels index (chan_r c);
          p2 = storeByte p1 (index + 1) (chan_g c);
          p3 = storeByte p2 (index + 2) (chan_b c)
      in storeByte p3 (index + 3) (chan_a c))"

text \<open>src/DrawingCanvas.tsx, lines 402-404: \<^verbatim>\<open>===\<close> on each of the four channels.\<close>

definition colorsMatch :: "rgba \<Rightarrow> rgba \<Rightarrow> bool" where
  "colorsMatch c1 c2 =
     (chan_r c1 = chan_r c2 \<and> chan_g c1 = chan_g c2 \<and> chan_b c1 = chan_b c2 \<and> chan_a c1 = chan_a c2)"

text \<open>
  The character class \<^verbatim>\<open>[a-f\d]\<close> under the flag \<^verbatim>\<open>i\<close>: a decimal digit or a
  letter a-f of either case.
\<close>

definition isHexDigit :: "char \<Rightarrow> bool" where
  "isHexDigit ch = (ch \<in> set ''0123456789abcdefABCDEF'')"

text \<open>The value \<^verbatim>\<open>parseInt\<close> gives one digit in base 16.\<close>

definition hexDigitValue :: "char \<Rightarrow> nat" where
  "hexDigitValue ch =
     (let n = of_char ch in
      if 48 \<le> n \<and> n \<le> 57 then n - 48
      else if 97 \<le> n \<and> n \<le> 102 then n - 87
      else if 65 \<le> n \<and> n \<le> 70 then n - 55
      else 0)"

text \<open>\<^verbatim>\<open>parseInt(s, 16)\<close> on a string of hex digits.\<close>

definition parseInt16 :: "string \<Rightarrow> nat" where
  "parseInt16 s = foldl (\<lambda>acc ch. acc * 16 + hexDigitValue ch) 0 s"

text \<open>
  \<^verbatim>\<open>/^#?([a-f\d]{2})([a-f\d]{2})([a-f\d]{2})$/i.exec(hex)\<close>: an optional \<^verbatim>\<open>#\<close>,
  then exactly six hex digits up to the end of the string; the result holds the three
  groups of two digits. Without the flag \<^verbatim>\<open>m\<close>, \<^verbatim>\<open>$\<close> matches at the end of the
  input only.
\<close>

definition hexExec :: "string \<Rightarrow> (string \<times> string \<times> string) option" where
  "hexExec hex =
     (let digits = (case hex of ch # rest \<Rightarrow> if ch = CHR ''#'' then rest else hex | [] \<Rightarrow> hex) in
      if length digits = 6 \<and> list_all isHexDigit digits
      then Some (take 2 digits, take 2 (drop 2 digits), drop 4 digits)
      else None)"

text \<open>src/DrawingCanvas.tsx, lines 409-417. Without a match the result is opaque black.\<close>

definition hexToRgb :: "string \<Rightarrow> rgba" where
  "hexToRgb hex =
     (case hexExec hex of
        Some (g1, g2, g3) \<Rightarrow>
          \<lparr>chan_r = Some (of_nat (parseInt16 g1)),
           chan_g = Some (of_nat (parseInt16 g2)),
           chan_b = Some (of_nat (parseInt16 g3)),
           chan_a = Some 255\<rparr>
      | None \<Rightarrow> \<lparr>chan_r = Some 0, chan_g = Some 0, chan_b = Some 0, chan_a = Some 255\<rparr>)"

section \<open>Undo/redo history\<close>

text \<open>\<^verbatim>\<open>xs.slice(0, end)\<close>: a negative \<^verbatim>\<open>end\<close> counts from the end of the array.\<close>

definition slice0 :: "'a list \<Rightarrow> int \<Rightarrow> 'a list" where
  "slice0 xs end = (if end < 0 then take (nat (int (length xs) + end)) xs else take (nat end) xs)"

text \<open>\<^verbatim>\<open>xs[i]\<close> on an array: \<^verbatim>\<open>undefined\<close> outside \<open>0 .. length - 1\<close>.\<close>

definition elemAt :: "'a list \<Rightarrow> int \<Rightarrow> 'a option" where
  "elemAt xs i = (if 0 \<le> i \<and> i < int (length xs) then Some (xs ! nat i) else None)"

text \<open>
  \<^verbatim>\<open>saveToHistory\<close>, lines 169-186 and 889-907. The two variants differ in the
  literal of the length test only (50 and 30), which is the parameter \<open>limit\<close>;
  \<open>now\<close> is the value of \<^verbatim>\<open>Date.now()\<close>. \<^verbatim>\<open>shift()\<close> removes the first
  element.
\<close>

definition saveToHistoryWith :: "nat \<Rightarrow> nat \<Rightarrow> component \<Rightarrow> component" where
  "saveToHistoryWith limit now c =
     (case canvasRef c of
        None \<Rightarrow> c
      | Some img \<Rightarrow>
          let newHistory = slice0 (history c) (historyStep c + 1)
                             @ [\<lparr>imageData = img, timestamp = now\<rparr>]
          in if length newHistory > limit
             then c\<lparr>history := tl newHistory\<rparr>
             else c\<lparr>history := newHistory, historyStep := historyStep c + 1\<rparr>)"

definition saveToHistory :: "nat \<Rightarrow> component \<Rightarrow> component" where
  "saveToHistory = saveToHistoryWith 50"

definition saveToHistory30 :: "nat \<Rightarrow> component \<Rightarrow> component" where
  "saveToHistory30 = saveToHistoryWith 30"

text \<open>
  \<^verbatim>\<open>undo\<close>, lines 191-201. \<^verbatim>\<open>putImageData(d, 0, 0)\<close> with a snapshot \<open>d\<close> taken
  from this canvas overwrites the whole canvas. \<^verbatim>\<open>history[prevStep].imageData\<close>
  throws when \<^verbatim>\<open>history[prevStep]\<close> is \<^verbatim>\<open>undefined\<close>.
\<close>

definition undo :: "component \<Rightarrow> error + component" where
  "undo c =
     (if historyStep c > 0 then
        (case canvasRef c of
           None \<Rightarrow> Inr c
         | Some img \<Rightarrow>
             let prevStep = historyStep c - 1 in
             (case elemAt (history c) prevStep of
                None \<Rightarrow> Inl TypeError
              | Some st \<Rightarrow> Inr (c\<lparr>canvasRef := Some (imageData st), historyStep := prevStep\<rparr>)))
      else Inr c)"

text \<open>\<^verbatim>\<open>redo\<close>, lines 206-216.\<close>

definition redo :: "component \<Rightarrow> error + component" where
  "redo c =
     (if historyStep c < int (length (history c)) - 1 then
        (case canvasRef c of
           None \<Rightarrow> Inr c
         | Some img \<Rightarrow>
             let nextStep = historyStep c + 1 in
             (case elemAt (history c) nextStep of
                None \<Rightarrow> Inl TypeError
              | Some st \<Rightarrow> Inr (c\<lparr>canvasRef := Some (imageData st), historyStep := nextStep\<rparr>)))
      else Inr c)"

text \<open>
  The undo and redo buttons are disabled by \<^verbatim>\<open>historyStep <= 0\<close> (line 597) and
  \<^verbatim>\<open>historyStep >= history.length - 1\<close> (line 610).
\<close>

definition canUndo :: "component \<Rightarrow> bool" where
  "canUndo c = (\<not> historyStep c \<le> 0)"

definition canRedo :: "component \<Rightarrow> bool" where
  "canRedo c = (\<not> historyStep c \<ge> int (length (history c)) - 1)"

text \<open>
  The handlers of the component, as a user triggers them. \<open>Push img now\<close> is an edit
  that leaves \<open>img\<close> on the canvas and then calls \<^verbatim>\<open>saveToHistory\<close> at time
  \<open>now\<close> (as \<^verbatim>\<open>finishDrawing\<close> and \<^verbatim>\<open>clearCanvas\<close> do; they return early
  without a canvas). An exception in \<^verbatim>\<open>undo\<close> or \<^verbatim>\<open>redo\<close> is raised before
  \<^verbatim>\<open>setHistoryStep\<close>, so it leaves the state as it was.
\<close>

datatype action = Push imagedata nat | Undo | Redo

fun isPush :: "action \<Rightarrow> bool" where
  "isPush (Push img now) = True"
| "isPush Undo = False"
| "isPush Redo = False"

fun step :: "nat \<Rightarrow> component \<Rightarrow> action \<Rightarrow> component" where
  "step limit c (Push img now) =
     (case canvasRef c of
        None \<Rightarrow> c
      | Some old \<Rightarrow> saveToHistoryWith limit now (c\<lparr>canvasRef := Some img\<rparr>))"
| "step limit c Undo = (case undo c of Inl e \<Rightarrow> c | Inr c' \<Rightarrow> c')"
| "step limit c Redo = (case redo c of Inl e \<Rightarrow> c | Inr c' \<Rightarrow> c')"

definition run :: "nat \<Rightarrow> action list \<Rightarrow> component \<Rightarrow> component" where
  "run limit acts c = foldl (step limit) c acts"

text \<open>
  The state before the mount effect has run: \<^verbatim>\<open>useState([])\<close> and
  \<^verbatim>\<open>useState(-1)\<close> (lines 62-63), over a canvas \<open>img\<close> and a colour \<open>col\<close>.
\<close>

definition initial :: "string \<Rightarrow> imagedata \<Rightarrow> component" where
  "initial col img = \<lparr>canvasRef = Some img, color = col, history = [], historyStep = - 1\<rparr>"

text \<open>
  The states the handlers keep the component in: at most \<open>limit\<close> snapshots, and the
  cursor inside the list (or -1 on the empty list).
\<close>

definition historyOk :: "nat \<Rightarrow> component \<Rightarrow> bool" where
  "historyOk limit c =
     (length (history c) \<le> limit \<and>
      (if history c = [] then historyStep c = - 1
       else 0 \<le> historyStep c \<and> historyStep c < int (length (history c))))"

section \<open>Flood fill\<close>

text \<open>
  The variables of the loop of \<^verbatim>\<open>floodFill\<close>. The head of \<open>stack\<close> is the top of
  the stack. \<open>visited\<close> holds the pairs whose key \<^verbatim>\<open>`${x},${y}`\<close> is in the
  \<^verbatim>\<open>Set<string>\<close> (the key determines the pair of integers). \<open>iterations\<close> counts
  the rounds of the loop: a variable of the second variant (line 1084), an observation
  in the first. \<open>writes\<close> is an observation only: the coordinates handed to
  \<^verbatim>\<open>setPixelColor\<close>, in order. The round of the loop reads neither of the two;
  only the guard of the second variant reads \<open>iterations\<close>.
\<close>

record fill_state =
  pixels :: "8 word list"
  stack :: "(int \<times> int) list"
  visited :: "(int \<times> int) set"
  iterations :: nat
  writes :: "(int \<times> int) list"

text \<open>
  One round of the loop, lines 347-362 (and 1087-1103, where \<open>cw\<close> and \<open>ch\<close> are
  \<^verbatim>\<open>width * dpr\<close> and \<^verbatim>\<open>height * dpr\<close>): pop, three tests that skip the
  coordinate, then the write, the mark and the four pushes. The loop does not run the
  round on an empty stack.
\<close>

definition floodFill_body :: "nat \<Rightarrow> nat \<Rightarrow> rgba \<Rightarrow> rgba \<Rightarrow> fill_state \<Rightarrow> fill_state" where
  "floodFill_body cw ch targetColor fillColor s =
     (case stack s of
        [] \<Rightarrow> s
      | (x, y) # rest \<Rightarrow>
          let popped = s\<lparr>stack := rest, iterations := iterations s + 1\<rparr> in
          if (x, y) \<in> visited s then popped
          else if x < 0 \<or> x \<ge> int cw \<or> y < 0 \<or> y \<ge> int ch then popped
          else if \<not> colorsMatch (getPixelColor (pixels s) x y cw) targetColor then popped
          else popped\<lparr>pixels := setPixelColor (pixels s) x y cw fillColor,
                       visited := insert (x, y) (visited s),
                       stack := (x, y - 1) # (x, y + 1) # (x - 1, y) # (x + 1, y) # rest,
                       writes := writes s @ [(x, y)]\<rparr>)"

text \<open>\<^verbatim>\<open>while (stack.length > 0) { ... }\<close>, lines 346-363.\<close>

function floodFill_loop :: "nat \<Rightarrow> nat \<Rightarrow> rgba \<Rightarrow> rgba \<Rightarrow> fill_state \<Rightarrow> fill_state" where
  "floodFill_loop cw ch targetColor fillColor s =
     (if stack s \<noteq> [] then floodFill_loop cw ch targetColor fillColor
                                (floodFill_body cw ch targetColor fillColor s)
      else s)"
  by pat_completeness auto
termination
proof (relation "inv_image (less_than <*lex*> less_than)
         (\<lambda>(cw, ch, targetColor, fillColor, s).
            (card (({0..<int cw} \<times> {0..<int ch}) - visited s), length (stack s)))")
  show "wf (inv_image (less_than <*lex*> less_than)
         (\<lambda>(cw, ch, targetColor, fillColor, s).
            (card (({0..<int cw} \<times> {0..<int ch}) - visited s), length (stack s))))"
    by (intro wf_inv_image wf_lex_prod wf_less_than)
next
  fix cw ch :: nat and targetColor fillColor :: rgba and s :: fill_state
  assume ne: "stack s \<noteq> []"
  then obtain x y rest where st: "stack s = (x, y) # rest"
    by (cases "stack s") auto
  let ?B = "{0..<int cw} \<times> {0..<int ch}"
  have fin: "finite (?B - visited s)" by simp
  have "card (?B - insert (x, y) (visited s)) < card (?B - visited s)"
    if "(x, y) \<notin> visited s" "0 \<le> x" "x < int cw" "0 \<le> y" "y < int ch"
  proof -
    have mem: "(x, y) \<in> ?B - visited s" using that by simp
    have eq: "?B - insert (x, y) (visited s) = (?B - visited s) - {(x, y)}" by blast
    show ?thesis unfolding eq by (rule card_Diff1_less[OF fin mem])
  qed
  then show "((cw, ch, targetColor, fillColor, floodFill_body cw ch targetColor fillColor s),
              (cw, ch, targetColor, fillColor, s))
             \<in> inv_image (less_than <*lex*> less_than)
                 (\<lambda>(cw, ch, targetColor, fillColor, s).
                    (card (({0..<int cw} \<times> {0..<int ch}) - visited s), length (stack s)))"
    using st by (auto simp: floodFill_body_def Let_def)
qed

text \<open>
  \<^verbatim>\<open>while (stack.length > 0 && iterations < maxIterations) { iterations++; ... }\<close>,
  lines 1086-1104.
\<close>

function floodFill_loop_capped ::
    "nat \<Rightarrow> nat \<Rightarrow> rgba \<Rightarrow> rgba \<Rightarrow> nat \<Rightarrow> fill_state \<Rightarrow> fill_state" where
  "floodFill_loop_capped cw ch targetColor fillColor maxIterations s =
     (if stack s \<noteq> [] \<and> iterations s < maxIterations
      then floodFill_loop_capped cw ch targetColor fillColor maxIterations
             (floodFill_body cw ch targetColor fillColor s)
      else s)"
  by pat_completeness auto
termination
  by (relation "measure (\<lambda>(cw, ch, targetColor, fillColor, maxIterations, s).
                    maxIterations - iterations s)")
     (auto simp: floodFill_body_def Let_def split: list.splits)

text \<open>The loop variables at line 343-344: the seed on the stack, nothing visited.\<close>

definition fillStart :: "8 word list \<Rightarrow> int \<Rightarrow> int \<Rightarrow> fill_state" where
  "fillStart pixels0 startX startY =
     \<lparr>pixels = pixels0, stack = [(startX, startY)], visited = {}, iterations = 0, writes = []\<rparr>"

text \<open>
  \<^verbatim>\<open>floodFill\<close> of the first variant, lines 331-367. \<^verbatim>\<open>getImageData\<close> copies the
  canvas, the loop works on the copy, \<^verbatim>\<open>putImageData\<close> writes it back, and
  \<^verbatim>\<open>saveToHistory\<close> records the result. The caller passes integers
  (\<^verbatim>\<open>Math.floor\<close>, line 444).
\<close>

definition floodFill :: "int \<Rightarrow> int \<Rightarrow> nat \<Rightarrow> component \<Rightarrow> component" where
  "floodFill startX startY now c =
     (case canvasRef c of
        None \<Rightarrow> c
      | Some canvas \<Rightarrow>
          let targetColor = getPixelColor (img_data canvas) startX startY (img_width canvas);
              fillColor = hexToRgb (color c)
          in if colorsMatch targetColor fillColor then c
             else
               let final = floodFill_loop (img_width canvas) (img_height canvas)
                             targetColor fillColor (fillStart (img_data canvas) startX startY)
               in saveToHistory now (c\<lparr>canvasRef := Some (canvas\<lparr>img_data := pixels final\<rparr>)\<rparr>))"

text \<open>
  The loop variables when the loop of that call has ended; \<open>None\<close> when the call
  returns before the loop (no canvas, or the seed already has the fill colour).
\<close>

definition floodFill_trace :: "int \<Rightarrow> int \<Rightarrow> component \<Rightarrow> fill_state option" where
  "floodFill_trace startX startY c =
     (case canvasRef c of
        None \<Rightarrow> None
      | Some canvas \<Rightarrow>
          let targetColor = getPixelColor (img_data canvas) startX startY (img_width canvas);
              fillColor = hexToRgb (color c)
          in if colorsMatch targetColor fillColor then None
             else Some (floodFill_loop (img_width canvas) (img_height canvas)
                          targetColor fillColor (fillStart (img_data canvas) startX startY)))"

text \<open>The number of pixels a call of \<^verbatim>\<open>floodFill\<close> writes.\<close>

definition pixelsChanged :: "int \<Rightarrow> int \<Rightarrow> component \<Rightarrow> nat" where
  "pixelsChanged startX startY c =
     (case floodFill_trace startX startY c of None \<Rightarrow> 0 | Some final \<Rightarrow> length (writes final))"

text \<open>
  \<^verbatim>\<open>floodFill\<close> of the second variant, lines 1068-1110, on a canvas of
  \<^verbatim>\<open>width * dpr\<close> by \<^verbatim>\<open>height * dpr\<close> pixels (lines 781-782), for an integer
  device pixel ratio \<open>dpr\<close>; \<open>startX\<close> and \<open>startY\<close> are the seed after
  \<^verbatim>\<open>Math.floor\<close>.
\<close>

definition floodFill_capped_trace ::
    "nat \<Rightarrow> nat \<Rightarrow> nat \<Rightarrow> int \<Rightarrow> int \<Rightarrow> component \<Rightarrow> fill_state option" where
  "floodFill_capped_trace width height dpr startX startY c =
     (case canvasRef c of
        None \<Rightarrow> None
      | Some canvas \<Rightarrow>
          let targetColor = getPixelColor (img_data canvas) startX startY (width * dpr);
              fillColor = hexToRgb (color c)
          in if colorsMatch targetColor fillColor then None
             else
               let maxIterations = width * height * dpr * dpr
               in Some (floodFill_loop_capped (width * dpr) (height * dpr) targetColor fillColor
                          maxIterations (fillStart (img_data canvas) startX startY)))"

definition floodFill_capped ::
    "nat \<Rightarrow> nat \<Rightarrow> nat \<Rightarrow> int \<Rightarrow> int \<Rightarrow> nat \<Rightarrow> component \<Rightarrow> component" where
  "floodFill_capped width height dpr startX startY now c =
     (case canvasRef c of
        None \<Rightarrow> c
      | Some canvas \<Rightarrow>
          (case floodFill_capped_trace width height dpr startX startY c of
             None \<Rightarrow> c
           | Some final \<Rightarrow>
               saveToHistory30 now (c\<lparr>canvasRef := Some (canvas\<lparr>img_data := pixels final\<rparr>)\<rparr>)))"

text \<open>
  The region the fill is meant to recolour: the pixels of the canvas that a path of
  horizontal and vertical steps joins to the seed, every pixel of the path inside the
  canvas and of the colour \<open>targetColor\<close> in the buffer \<open>B\<close>.
\<close>

inductive_set region :: "nat \<Rightarrow> nat \<Rightarrow> 8 word list \<Rightarrow> rgba \<Rightarrow> int \<times> int \<Rightarrow> (int \<times> int) set"
  for cw :: nat and ch :: nat and B :: "8 word list" and targetColor :: rgba and seed :: "int \<times> int"
  where
    seed: "\<lbrakk>seed = (x, y); 0 \<le> x; x < int cw; 0 \<le> y; y < int ch;
            getPixelColor B x y cw = targetColor\<rbrakk> \<Longrightarrow> (x, y) \<in> region cw ch B targetColor seed"
  | step: "\<lbrakk>(x, y) \<in> region cw ch B targetColor seed;
            (x', y') \<in> {(x + 1, y), (x - 1, y), (x, y + 1), (x, y - 1)};
            0 \<le> x'; x' < int cw; 0 \<le> y'; y' < int ch;
            getPixelColor B x' y' cw = targetColor\<rbrakk> \<Longrightarrow> (x', y') \<in> region cw ch B targetColor seed"

section \<open>Notions used in the proofs\<close>

text \<open>A coordinate inside a canvas of \<open>cw\<close> by \<open>ch\<close> pixels.\<close>

definition inCanvas :: "nat \<Rightarrow> nat \<Rightarrow> int \<times> int \<Rightarrow> bool" where
  "inCanvas cw ch p = (0 \<le> fst p \<and> fst p < int cw \<and> 0 \<le> snd p \<and> snd p < int ch)"

text \<open>A colour without an \<^verbatim>\<open>undefined\<close> channel.\<close>

definition definedColor :: "rgba \<Rightarrow> bool" where
  "definedColor c = (chan_r c \<noteq> None \<and> chan_g c \<noteq> None \<and> chan_b c \<noteq> None \<and> chan_a c \<noteq> None)"

text \<open>The popped coordinate passes the three tests of the loop and is written.\<close>

definition fills :: "nat \<Rightarrow> nat \<Rightarrow> rgba \<Rightarrow> fill_state \<Rightarrow> int \<Rightarrow> int \<Rightarrow> bool" where
  "fills cw ch tc s x y =
     ((x, y) \<notin> visited s \<and> 0 \<le> x \<and> x < int cw \<and> 0 \<le> y \<and> y < int ch \<and>
      getPixelColor (pixels s) x y cw = tc)"

definition neighbours :: "int \<times> int \<Rightarrow> (int \<times> int) set" where
  "neighbours p = {(fst p + 1, snd p), (fst p - 1, snd p), (fst p, snd p + 1), (fst p, snd p - 1)}"

text \<open>
  Invariants of the loop over the buffer \<open>B\<close> it started from. The pixels: a visited
  pixel holds the fill colour, every other pixel of the canvas its colour in \<open>B\<close>.
\<close>

definition pixInv :: "nat \<Rightarrow> nat \<Rightarrow> 8 word list \<Rightarrow> rgba \<Rightarrow> fill_state \<Rightarrow> bool" where
  "pixInv cw ch B fc s =
     (length (pixels s) = length B \<and>
      (\<forall>x y. 0 \<le> x \<and> x < int cw \<and> 0 \<le> y \<and> y < int ch \<longrightarrow>
         getPixelColor (pixels s) x y cw = (if (x, y) \<in> visited s then fc else getPixelColor B x y cw)))"

text \<open>Only pixels of the region are visited, and a stacked pixel of the target colour is in the region.\<close>

definition seenInv :: "nat \<Rightarrow> nat \<Rightarrow> 8 word list \<Rightarrow> rgba \<Rightarrow> int \<times> int \<Rightarrow> fill_state \<Rightarrow> bool" where
  "seenInv cw ch B tc seed s =
     (visited s \<subseteq> region cw ch B tc seed \<and>
      (\<forall>p \<in> set (stack s). inCanvas cw ch p \<and> getPixelColor B (fst p) (snd p) cw = tc
           \<longrightarrow> p \<in> region cw ch B tc seed))"

text \<open>The seed and the region neighbours of a visited pixel are visited or wait on the stack.\<close>

definition frontInv :: "nat \<Rightarrow> nat \<Rightarrow> 8 word list \<Rightarrow> rgba \<Rightarrow> int \<times> int \<Rightarrow> fill_state \<Rightarrow> bool" where
  "frontInv cw ch B tc seed s =
     ((seed \<in> region cw ch B tc seed \<longrightarrow> seed \<in> visited s \<or> seed \<in> set (stack s)) \<and>
      (\<forall>p \<in> visited s. \<forall>q \<in> neighbours p. q \<in> region cw ch B tc seed
           \<longrightarrow> q \<in> visited s \<or> q \<in> set (stack s)))"

definition fillInv ::
    "nat \<Rightarrow> nat \<Rightarrow> 8 word list \<Rightarrow> rgba \<Rightarrow> rgba \<Rightarrow> int \<times> int \<Rightarrow> fill_state \<Rightarrow> bool" where
  "fillInv cw ch B tc fc seed s =
     (pixInv cw ch B fc s \<and> seenInv cw ch B tc seed s \<and> frontInv cw ch B tc seed s)"

text \<open>
  The counters: the writes are the visited coordinates, each once and inside the canvas,
  and every round pops one coordinate while every write pushes four.
\<close>

definition countInv :: "nat \<Rightarrow> nat \<Rightarrow> fill_state \<Rightarrow> bool" where
  "countInv cw ch s =
     (distinct (writes s) \<and> set (writes s) = visited s \<and>
      visited s \<subseteq> {0..<int cw} \<times> {0..<int ch} \<and>
      iterations s + length (stack s) = 1 + 4 * length (writes s))"

section \<open>Example states\<close>

text \<open>A canvas of one pixel of grey level \<open>n\<close>, and \<open>n\<close> snapshots of such canvases.\<close>

definition shade :: "nat \<Rightarrow> imagedata" where
  "shade n = \<lparr>img_width = 1, img_height = 1, img_data = [of_nat n, of_nat n, of_nat n, 255]\<rparr>"

primrec snapshots :: "nat \<Rightarrow> drawingState list" where
  "snapshots 0 = []"
| "snapshots (Suc n) = snapshots n @ [\<lparr>imageData = shade n, timestamp = n\<rparr>]"

text \<open>A component whose history is full (50 snapshots), the cursor on the last one.\<close>

definition fullHistory :: component where
  "fullHistory = \<lparr>canvasRef = Some (shade 50), color = ''#000000'',
                   history = snapshots 50, historyStep = 49\<rparr>"

text \<open>A component with three snapshots, the cursor on the last one or on the first.\<close>

definition threeAtLast :: component where
  "threeAtLast = \<lparr>canvasRef = Some (shade 2), color = ''#000000'',
                   history = snapshots 3, historyStep = 2\<rparr>"

definition threeAtFirst :: component where
  "threeAtFirst = \<lparr>canvasRef = Some (shade 7), color = ''#000000'',
                    history = snapshots 3, historyStep = 0\<rparr>"

text \<open>A white canvas of two by two pixels, and one with a black right column.\<close>

definition white2x2 :: imagedata where
  "white2x2 = \<lparr>img_width = 2, img_height = 2,
     img_data = [255, 255, 255, 255,  255, 255, 255, 255,
                 255, 255, 255, 255,  255, 255, 255, 255]\<rparr>"

definition halves2x2 :: imagedata where
  "halves2x2 = \<lparr>img_width = 2, img_height = 2,
     img_data = [255, 255, 255, 255,  0, 0, 0, 255,
                 255, 255, 255, 255,  0, 0, 0, 255]\<rparr>"

text \<open>A white canvas of five by five pixels.\<close>

definition white5x5 :: imagedata where
  "white5x5 = \<lparr>img_width = 5, img_height = 5, img_data = replicate 100 255\<rparr>"

text \<open>A component over the canvas \<open>img\<close> with the active colour \<open>col\<close> and no history.\<close>

definition painter :: "imagedata \<Rightarrow> string \<Rightarrow> component" where
  "painter img col = \<lparr>canvasRef = Some img, color = col, history = [], historyStep = - 1\<rparr>"

text \<open>A list of \<open>n\<close> edits, each followed by \<^verbatim>\<open>saveToHistory\<close>.\<close>

primrec edits :: "nat \<Rightarrow> action list" where
  "edits 0 = []"
| "edits (Suc n) = edits n @ [Push (shade n) n]"

section \<open>Reading and writing pixels\<close>

lemma pixel_index_range:
  assumes "0 \<le> x" "x < int cw" "0 \<le> y" "y < int ch"
  shows "0 \<le> y * int cw + x" and "y * int cw + x < int cw * int ch"
proof -
  show "0 \<le> y * int cw + x" using assms by simp
  have "(y + 1) * int cw \<le> int ch * int cw"
    using assms by (intro mult_right_mono) auto
  then show "y * int cw + x < int cw * int ch"
    using assms by (simp add: algebra_simps)
qed

lemma pixel_index_inj:
  assumes "0 \<le> x" "x < int cw" "0 \<le> x'" "x' < int cw"
    and eq: "y * int cw + x = y' * int cw + x'"
  shows "x = x' \<and> y = y'"
proof -
  have "y = y'"
  proof (rule ccontr)
    assume ne: "y \<noteq> y'"
    show False
    proof (cases "y < y'")
      case True
      then have "(y + 1) * int cw \<le> y' * int cw" by (intro mult_right_mono) auto
      then show False using assms by (simp add: algebra_simps)
    next
      case False
      then have "y' < y" using ne by simp
      then have "(y' + 1) * int cw \<le> y * int cw" by (intro mult_right_mono) auto
      then show False using assms by (simp add: algebra_simps)
    qed
  qed
  then show ?thesis using eq by simp
qed

lemma length_storeByte [simp]: "length (storeByte ps i v) = length ps"
  by (simp add: storeByte_def)

lemma byteAt_storeByte:
  "byteAt (storeByte ps i v) j =
     (if j = i \<and> 0 \<le> i \<and> i < int (length ps) then Some (case v of None \<Rightarrow> 0 | Some b \<Rightarrow> b)
      else byteAt ps j)"
  by (auto simp: byteAt_def storeByte_def nth_list_update)

lemma length_setPixelColor [simp]: "length (setPixelColor ps x y cw c) = length ps"
  by (simp add: setPixelColor_def Let_def)

lemma getPixelColor_setPixelColor_same:
  assumes "0 \<le> x" "x < int cw" "0 \<le> y" "y < int ch"
    and len: "length ps = 4 * cw * ch" and d: "definedColor c"
  shows "getPixelColor (setPixelColor ps x y cw c) x y cw = c"
proof -
  have r: "0 \<le> y * int cw + x" "y * int cw + x < int cw * int ch"
    using pixel_index_range[OF assms(1-4)] by auto
  have l: "int (length ps) = 4 * (int cw * int ch)" using len by simp
  show ?thesis
    using r d unfolding getPixelColor_def setPixelColor_def Let_def definedColor_def
    by (cases c) (auto simp: byteAt_storeByte l)
qed

lemma getPixelColor_setPixelColor_other:
  assumes "0 \<le> x" "x < int cw" "0 \<le> x'" "x' < int cw" "(x', y') \<noteq> (x, y)"
  shows "getPixelColor (setPixelColor ps x y cw c) x' y' cw = getPixelColor ps x' y' cw"
proof -
  have ne: "y' * int cw + x' \<noteq> y * int cw + x"
    using pixel_index_inj[OF assms(3,4,1,2), of y' y] assms(5) by auto
  show ?thesis
    using ne unfolding getPixelColor_def setPixelColor_def Let_def
    by (simp add: byteAt_storeByte)
qed

section \<open>One round of the flood fill loop\<close>

lemma colorsMatch_eq: "colorsMatch c1 c2 = (c1 = c2)"
  by (cases c1, cases c2) (auto simp: colorsMatch_def)

lemma body_skip:
  assumes "stack s = (x, y) # rest" "\<not> fills cw ch tc s x y"
  shows "floodFill_body cw ch tc fc s = s\<lparr>stack := rest, iterations := iterations s + 1\<rparr>"
  using assms by (auto simp: floodFill_body_def fills_def colorsMatch_eq Let_def)

lemma body_fill:
  assumes "stack s = (x, y) # rest" "fills cw ch tc s x y"
  shows "floodFill_body cw ch tc fc s =
           s\<lparr>stack := (x, y - 1) # (x, y + 1) # (x - 1, y) # (x + 1, y) # rest,
             iterations := iterations s + 1,
             pixels := setPixelColor (pixels s) x y cw fc,
             visited := insert (x, y) (visited s),
             writes := writes s @ [(x, y)]\<rparr>"
  using assms by (auto simp: floodFill_body_def fills_def colorsMatch_eq Let_def)

lemma region_props:
  assumes "(x, y) \<in> region cw ch B tc seed"
  shows "0 \<le> x \<and> x < int cw \<and> 0 \<le> y \<and> y < int ch \<and> getPixelColor B x y cw = tc"
  using assms by (cases rule: region.cases) auto

lemma skipped_pixel:
  assumes "pixInv cw ch B fc s" "\<not> fills cw ch tc s x y"
  shows "(x, y) \<in> visited s \<or> (x, y) \<notin> region cw ch B tc seed"
proof (cases "(x, y) \<in> region cw ch B tc seed")
  case True
  note rp = region_props[OF True]
  then have "getPixelColor (pixels s) x y cw = (if (x, y) \<in> visited s then fc else tc)"
    using assms(1) by (simp add: pixInv_def)
  then show ?thesis using assms(2) rp by (auto simp: fills_def)
next
  case False
  then show ?thesis by simp
qed

lemma pixInv_body:
  assumes inv: "pixInv cw ch B fc s" and ne: "stack s \<noteq> []"
    and len: "length B = 4 * cw * ch" and d: "definedColor fc"
  shows "pixInv cw ch B fc (floodFill_body cw ch tc fc s)"
proof -
  obtain x y rest where st: "stack s = (x, y) # rest" using ne by (cases "stack s") auto
  show ?thesis
  proof (cases "fills cw ch tc s x y")
    case False
    then show ?thesis using inv by (simp add: body_skip[OF st False] pixInv_def)
  next
    case True
    then have b: "0 \<le> x" "x < int cw" "0 \<le> y" "y < int ch" by (auto simp: fills_def)
    have l: "length (pixels s) = 4 * cw * ch" using inv len by (simp add: pixInv_def)
    have "getPixelColor (setPixelColor (pixels s) x y cw fc) x' y' cw =
            (if (x', y') \<in> insert (x, y) (visited s) then fc else getPixelColor B x' y' cw)"
      if c: "0 \<le> x'" "x' < int cw" "0 \<le> y'" "y' < int ch" for x' y'
    proof (cases "(x', y') = (x, y)")
      case True
      then show ?thesis using getPixelColor_setPixelColor_same[OF b l d] by simp
    next
      case False
      then show ?thesis
        using getPixelColor_setPixelColor_other[OF b(1,2) c(1,2) False] inv c False
        by (auto simp: pixInv_def)
    qed
    then show ?thesis using inv by (simp add: body_fill[OF st True] pixInv_def)
  qed
qed

lemma seenInv_body:
  assumes pin: "pixInv cw ch B fc s" and inv: "seenInv cw ch B tc seed s" and ne: "stack s \<noteq> []"
  shows "seenInv cw ch B tc seed (floodFill_body cw ch tc fc s)"
proof -
  obtain x y rest where st: "stack s = (x, y) # rest" using ne by (cases "stack s") auto
  show ?thesis
  proof (cases "fills cw ch tc s x y")
    case False
    then show ?thesis using inv st by (simp add: body_skip[OF st False] seenInv_def)
  next
    case True
    then have b: "0 \<le> x" "x < int cw" "0 \<le> y" "y < int ch" "(x, y) \<notin> visited s"
      "getPixelColor (pixels s) x y cw = tc" by (auto simp: fills_def)
    have "getPixelColor B x y cw = tc" using pin b by (simp add: pixInv_def)
    then have reg: "(x, y) \<in> region cw ch B tc seed"
      using inv st b by (simp add: seenInv_def inCanvas_def)
    have nb: "q \<in> region cw ch B tc seed"
      if "q \<in> {(x + 1, y), (x - 1, y), (x, y + 1), (x, y - 1)}" "inCanvas cw ch q"
        "getPixelColor B (fst q) (snd q) cw = tc" for q
    proof -
      obtain x' y' where q: "q = (x', y')" by (cases q)
      show ?thesis unfolding q
        by (rule region.step[OF reg]) (use that q in \<open>auto simp: inCanvas_def\<close>)
    qed
    show ?thesis
      using inv st reg nb by (auto simp: body_fill[OF st True] seenInv_def)
  qed
qed

lemma frontInv_body:
  assumes pin: "pixInv cw ch B fc s" and inv: "frontInv cw ch B tc seed s" and ne: "stack s \<noteq> []"
  shows "frontInv cw ch B tc seed (floodFill_body cw ch tc fc s)"
proof -
  obtain x y rest where st: "stack s = (x, y) # rest" using ne by (cases "stack s") auto
  let ?R = "region cw ch B tc seed"
  from inv st have seed: "seed \<in> ?R \<Longrightarrow> seed \<in> visited s \<or> seed = (x, y) \<or> seed \<in> set rest"
    and front: "\<And>p q. p \<in> visited s \<Longrightarrow> q \<in> neighbours p \<Longrightarrow> q \<in> ?R
                  \<Longrightarrow> q \<in> visited s \<or> q = (x, y) \<or> q \<in> set rest"
    by (auto simp: frontInv_def)
  show ?thesis
  proof (cases "fills cw ch tc s x y")
    case False
    note sk = skipped_pixel[OF pin False, where seed = seed]
    have "seed \<in> ?R \<longrightarrow> seed \<in> visited s \<or> seed \<in> set rest"
      using seed sk by blast
    moreover have "\<forall>p \<in> visited s. \<forall>q \<in> neighbours p. q \<in> ?R \<longrightarrow> q \<in> visited s \<or> q \<in> set rest"
      using front sk by blast
    ultimately show ?thesis
      by (simp add: body_skip[OF st False] frontInv_def)
  next
    case True
    let ?S = "set ((x, y - 1) # (x, y + 1) # (x - 1, y) # (x + 1, y) # rest)"
    have nb: "neighbours (x, y) \<subseteq> ?S" by (auto simp: neighbours_def)
    have sub: "set rest \<subseteq> ?S" by auto
    have "seed \<in> ?R \<longrightarrow> seed \<in> insert (x, y) (visited s) \<or> seed \<in> ?S"
      using seed sub by blast
    moreover have "\<forall>p \<in> insert (x, y) (visited s). \<forall>q \<in> neighbours p. q \<in> ?R
                     \<longrightarrow> q \<in> insert (x, y) (visited s) \<or> q \<in> ?S"
    proof (intro ballI impI)
      fix p q assume p: "p \<in> insert (x, y) (visited s)" and q: "q \<in> neighbours p" "q \<in> ?R"
      show "q \<in> insert (x, y) (visited s) \<or> q \<in> ?S"
      proof (cases "p = (x, y)")
        case True
        then show ?thesis using q nb by blast
      next
        case False
        then have "p \<in> visited s" using p by simp
        from front[OF this q] show ?thesis using sub by blast
      qed
    qed
    moreover have "visited (floodFill_body cw ch tc fc s) = insert (x, y) (visited s)"
      and "stack (floodFill_body cw ch tc fc s) = (x, y - 1) # (x, y + 1) # (x - 1, y) # (x + 1, y) # rest"
      by (simp_all add: body_fill[OF st True])
    ultimately show ?thesis
      unfolding frontInv_def by (simp only:)
  qed
qed

section \<open>The flood fill loop\<close>

declare floodFill_loop.simps [simp del]
declare floodFill_loop_capped.simps [simp del]

lemma floodFill_loop_rule:
  assumes "P s"
    and "\<And>t. P t \<Longrightarrow> stack t \<noteq> [] \<Longrightarrow> P (floodFill_body cw ch tc fc t)"
  shows "P (floodFill_loop cw ch tc fc s) \<and> stack (floodFill_loop cw ch tc fc s) = []"
  using assms
proof (induction cw ch tc fc s rule: floodFill_loop.induct)
  case (1 cw ch tc fc s)
  show ?case
  proof (cases "stack s = []")
    case True
    then show ?thesis using "1.prems"(1) by (simp add: floodFill_loop.simps[of cw ch tc fc s])
  next
    case False
    have "P (floodFill_body cw ch tc fc s)" using "1.prems" False by blast
    from "1.IH"[OF False this "1.prems"(2)] show ?thesis
      using False by (simp add: floodFill_loop.simps[of cw ch tc fc s])
  qed
qed

lemma floodFill_loop_capped_rule:
  assumes "P s"
    and "\<And>t. P t \<Longrightarrow> stack t \<noteq> [] \<Longrightarrow> iterations t < m \<Longrightarrow> P (floodFill_body cw ch tc fc t)"
  shows "P (floodFill_loop_capped cw ch tc fc m s)"
  using assms
proof (induction cw ch tc fc m s rule: floodFill_loop_capped.induct)
  case (1 cw ch tc fc m s)
  show ?case
  proof (cases "stack s \<noteq> [] \<and> iterations s < m")
    case False
    then have "floodFill_loop_capped cw ch tc fc m s = s"
      by (subst floodFill_loop_capped.simps) auto
    then show ?thesis using "1.prems"(1) by simp
  next
    case True
    have "P (floodFill_body cw ch tc fc s)" using "1.prems" True by blast
    moreover have "floodFill_loop_capped cw ch tc fc m s =
        floodFill_loop_capped cw ch tc fc m (floodFill_body cw ch tc fc s)"
      using True by (subst floodFill_loop_capped.simps) auto
    ultimately show ?thesis using "1.IH"[OF True _ "1.prems"(2)] by simp
  qed
qed

lemma countInv_body:
  assumes inv: "countInv cw ch s" and ne: "stack s \<noteq> []"
  shows "countInv cw ch (floodFill_body cw ch tc fc s)"
proof -
  obtain x y rest where st: "stack s = (x, y) # rest" using ne by (cases "stack s") auto
  show ?thesis
  proof (cases "fills cw ch tc s x y")
    case False
    then show ?thesis using inv st by (simp add: body_skip[OF st False] countInv_def)
  next
    case True
    then have "(x, y) \<notin> visited s" "(x, y) \<in> {0..<int cw} \<times> {0..<int ch}"
      by (auto simp: fills_def)
    then show ?thesis using inv st by (simp add: body_fill[OF st True] countInv_def)
  qed
qed

lemma iterations_body:
  "stack s \<noteq> [] \<Longrightarrow> iterations (floodFill_body cw ch tc fc s) = iterations s + 1"
  by (auto simp: floodFill_body_def Let_def split: list.splits)

lemma countInv_start: "countInv cw ch (fillStart ps x y)"
  by (simp add: countInv_def fillStart_def)

lemma iterations_start: "iterations (fillStart ps x y) = 0"
  by (simp add: fillStart_def)

lemma countInv_writes_bound:
  assumes "countInv cw ch s"
  shows "length (writes s) \<le> cw * ch"
proof -
  have "length (writes s) = card (visited s)"
    using assms distinct_card[of "writes s"] by (simp add: countInv_def)
  also have "\<dots> \<le> card ({0..<int cw} \<times> {0..<int ch})"
    using assms by (intro card_mono) (auto simp: countInv_def)
  also have "\<dots> = cw * ch" by (simp add: card_cartesian_product)
  finally show ?thesis .
qed

lemma loop_counts:
  "countInv cw ch (floodFill_loop cw ch tc fc (fillStart ps x y)) \<and>
   stack (floodFill_loop cw ch tc fc (fillStart ps x y)) = []"
  by (rule floodFill_loop_rule[where P = "countInv cw ch"])
     (auto intro: countInv_start countInv_body)

lemma capped_counts:
  "countInv cw ch (floodFill_loop_capped cw ch tc fc m (fillStart ps x y)) \<and>
   iterations (floodFill_loop_capped cw ch tc fc m (fillStart ps x y)) \<le> m"
  by (rule floodFill_loop_capped_rule[where P = "\<lambda>s. countInv cw ch s \<and> iterations s \<le> m"])
     (auto intro: countInv_start countInv_body simp: iterations_body iterations_start)

lemma fillInv_start:
  "fillInv cw ch B (getPixelColor B x y cw) fc (x, y) (fillStart B x y)"
  by (auto simp: fillInv_def pixInv_def seenInv_def frontInv_def fillStart_def inCanvas_def
           intro: region.seed)

lemma fillInv_body:
  assumes "fillInv cw ch B tc fc seed s" "stack s \<noteq> []" "length B = 4 * cw * ch" "definedColor fc"
  shows "fillInv cw ch B tc fc seed (floodFill_body cw ch tc fc s)"
  using assms pixInv_body seenInv_body frontInv_body unfolding fillInv_def by blast

lemma region_subset_visited:
  assumes fr: "frontInv cw ch B tc seed s" and em: "stack s = []"
    and p: "(a, b) \<in> region cw ch B tc seed"
  shows "(a, b) \<in> visited s"
  using p
proof (induction rule: region.induct)
  case (seed x y)
  then have "(x, y) \<in> region cw ch B tc seed" by (auto intro: region.seed)
  then show ?case using fr em seed by (auto simp: frontInv_def)
next
  case (step x y x' y')
  have "(x', y') \<in> region cw ch B tc seed"
    by (rule region.step[OF step(1) step(2)]) (use step in auto)
  moreover have "(x', y') \<in> neighbours (x, y)" using step(2) by (auto simp: neighbours_def)
  ultimately show ?case using fr em step.IH by (auto simp: frontInv_def)
qed

lemma loop_fills_region:
  fixes x y :: int
  assumes len: "length B = 4 * cw * ch" and d: "definedColor fc"
  defines "final \<equiv> floodFill_loop cw ch (getPixelColor B x y cw) fc (fillStart B x y)"
  shows "length (pixels final) = length B"
    and "visited final = region cw ch B (getPixelColor B x y cw) (x, y)"
    and "\<And>x' y'. 0 \<le> x' \<Longrightarrow> x' < int cw \<Longrightarrow> 0 \<le> y' \<Longrightarrow> y' < int ch \<Longrightarrow>
           getPixelColor (pixels final) x' y' cw =
             (if (x', y') \<in> region cw ch B (getPixelColor B x y cw) (x, y) then fc
              else getPixelColor B x' y' cw)"
proof -
  let ?tc = "getPixelColor B x y cw"
  have fin: "fillInv cw ch B ?tc fc (x, y) final \<and> stack final = []"
    unfolding final_def
    by (rule floodFill_loop_rule[where P = "fillInv cw ch B ?tc fc (x, y)"])
       (auto intro: fillInv_start fillInv_body[OF _ _ len d])
  then show "length (pixels final) = length B" by (simp add: fillInv_def pixInv_def)
  show v: "visited final = region cw ch B ?tc (x, y)"
    using fin region_subset_visited[of cw ch B ?tc "(x, y)" final]
    by (auto simp: fillInv_def seenInv_def)
  fix x' y' assume "0 \<le> x'" "x' < int cw" "0 \<le> y'" "y' < int ch"
  then show "getPixelColor (pixels final) x' y' cw =
             (if (x', y') \<in> region cw ch B ?tc (x, y) then fc else getPixelColor B x' y' cw)"
    using fin v by (simp add: fillInv_def pixInv_def)
qed

section \<open>The history under its handlers\<close>

lemma slice0_cursor:
  assumes "historyOk limit c"
  shows "slice0 (history c) (historyStep c + 1) = take (nat (historyStep c + 1)) (history c)"
    and "length (take (nat (historyStep c + 1)) (history c)) = nat (historyStep c + 1)"
    and "nat (historyStep c + 1) \<le> limit"
    and "- 1 \<le> historyStep c"
  using assms by (auto simp: historyOk_def slice0_def split: if_splits)

lemma push_shape:
  fixes now :: nat
  assumes ok: "historyOk limit c" and cv: "canvasRef c = Some img"
  defines "new \<equiv> \<lparr>imageData = img, timestamp = now\<rparr>"
  defines "kept \<equiv> take (nat (historyStep c + 1)) (history c) @ [new]"
  shows "length kept > limit \<Longrightarrow> saveToHistoryWith limit now c = c\<lparr>history := tl kept\<rparr>"
    and "\<not> length kept > limit \<Longrightarrow>
           saveToHistoryWith limit now c = c\<lparr>history := kept, historyStep := historyStep c + 1\<rparr>"
    and "length kept = nat (historyStep c + 1) + 1"
  using slice0_cursor[OF ok] cv
  by (simp_all add: saveToHistoryWith_def kept_def new_def Let_def)

lemma push_cursor_tail:
  assumes ok: "historyOk limit c" and cv: "canvasRef c = Some img"
  shows "historyStep (saveToHistoryWith limit now c) =
           int (length (history (saveToHistoryWith limit now c))) - 1"
proof -
  let ?kept = "take (nat (historyStep c + 1)) (history c) @ [\<lparr>imageData = img, timestamp = now\<rparr>]"
  note s = slice0_cursor[OF ok] push_shape[OF ok cv, of now]
  show ?thesis
  proof (cases "length ?kept > limit")
    case True
    then have "nat (historyStep c + 1) = limit" using s(3) s(7) by linarith
    then show ?thesis using True s by simp
  next
    case False
    then show ?thesis using s by simp
  qed
qed

lemma push_length:
  assumes ok: "historyOk limit c"
  shows "length (history (saveToHistoryWith limit now c)) \<le> limit"
proof (cases "canvasRef c")
  case None
  then show ?thesis using ok by (simp add: saveToHistoryWith_def historyOk_def)
next
  case (Some img)
  let ?kept = "take (nat (historyStep c + 1)) (history c) @ [\<lparr>imageData = img, timestamp = now\<rparr>]"
  note s = slice0_cursor[OF ok] push_shape[OF ok Some, of now]
  show ?thesis
  proof (cases "length ?kept > limit")
    case True
    then show ?thesis using s by simp
  next
    case False
    then show ?thesis using s by simp
  qed
qed

lemma push_ok:
  assumes ok: "historyOk limit c"
  shows "historyOk limit (saveToHistoryWith limit now c)"
proof (cases "canvasRef c")
  case None
  then show ?thesis using ok by (simp add: saveToHistoryWith_def)
next
  case (Some img)
  show ?thesis
    using push_cursor_tail[OF ok Some, of now] push_length[OF ok, of now]
    by (simp add: historyOk_def)
qed

lemma push_last:
  assumes ok: "historyOk limit c" and cv: "canvasRef c = Some img" and pos: "0 < limit"
  shows "elemAt (history (saveToHistoryWith limit now c)) (historyStep (saveToHistoryWith limit now c))
           = Some \<lparr>imageData = img, timestamp = now\<rparr>"
proof -
  let ?new = "\<lparr>imageData = img, timestamp = now\<rparr>"
  let ?pre = "take (nat (historyStep c + 1)) (history c)"
  let ?c' = "saveToHistoryWith limit now c"
  note s = slice0_cursor[OF ok] push_shape[OF ok cv, of now]
  have hist: "history ?c' \<noteq> [] \<and> last (history ?c') = ?new"
  proof (cases "length (?pre @ [?new]) > limit")
    case True
    then have "?pre \<noteq> []" using pos by auto
    then have "tl (?pre @ [?new]) = tl ?pre @ [?new]" by simp
    then show ?thesis using s(5)[OF True] by simp
  next
    case False
    then show ?thesis using s(6)[OF False] by simp
  qed
  have "historyStep ?c' = int (length (history ?c')) - 1" by (rule push_cursor_tail[OF ok cv])
  moreover have "history ?c' ! (length (history ?c') - 1) = ?new"
    using hist last_conv_nth[of "history ?c'"] by simp
  moreover have "0 < length (history ?c')" using hist by simp
  moreover have "nat (int (length (history ?c')) - 1) = length (history ?c') - 1" by arith
  ultimately show ?thesis by (simp add: elemAt_def)
qed

lemma undo_ok:
  assumes ok: "historyOk limit c" and u: "undo c = Inr c'"
  shows "historyOk limit c'"
  using assms
  by (auto simp: undo_def historyOk_def elemAt_def Let_def split: if_splits option.splits)

lemma redo_ok:
  assumes ok: "historyOk limit c" and u: "redo c = Inr c'"
  shows "historyOk limit c'"
  using assms
  by (auto simp: redo_def historyOk_def elemAt_def Let_def split: if_splits option.splits)

lemma step_ok: "historyOk limit c \<Longrightarrow> historyOk limit (step limit c a)"
proof (cases a)
  case (Push img now)
  assume ok: "historyOk limit c"
  then have "historyOk limit (c\<lparr>canvasRef := Some img\<rparr>)" by (simp add: historyOk_def)
  then show ?thesis using Push ok push_ok by (simp split: option.splits)
next
  case Undo
  assume "historyOk limit c"
  then show ?thesis using Undo undo_ok by (auto split: sum.splits)
next
  case Redo
  assume "historyOk limit c"
  then show ?thesis using Redo redo_ok by (auto split: sum.splits)
qed

lemma run_ok: "historyOk limit c \<Longrightarrow> historyOk limit (run limit acts c)"
  unfolding run_def by (induction acts arbitrary: c) (simp_all add: step_ok)

lemma initial_ok: "historyOk limit (initial col img)"
  by (simp add: historyOk_def initial_def)

lemma run_snoc: "run limit (acts @ [a]) c = step limit (run limit acts c) a"
  by (simp add: run_def)

lemma pushes_shape:
  "list_all isPush acts \<Longrightarrow>
     canvasRef (run limit acts (initial col img)) \<noteq> None \<and>
     historyStep (run limit acts (initial col img)) =
       int (length (history (run limit acts (initial col img)))) - 1 \<and>
     length (history (run limit acts (initial col img))) = min (length acts) limit"
proof (induction acts rule: rev_induct)
  case Nil
  then show ?case by (simp add: run_def initial_def)
next
  case (snoc a acts)
  let ?c = "run limit acts (initial col img)"
  from snoc obtain im now where a: "a = Push im now" by (cases a) auto
  from snoc obtain old where old: "canvasRef ?c = Some old" by auto
  let ?d = "?c\<lparr>canvasRef := Some im\<rparr>"
  have okc: "historyOk limit ?c" by (rule run_ok[OF initial_ok])
  then have okd: "historyOk limit ?d" by (simp add: historyOk_def)
  have cd: "canvasRef ?d = Some im" by simp
  have st: "run limit (acts @ [a]) (initial col img) = saveToHistoryWith limit now ?d"
    using a old by (simp add: run_snoc)
  note s = push_shape[OF okd cd, of now] push_cursor_tail[OF okd cd, of now]
  have ih: "historyStep ?c = int (length (history ?c)) - 1"
    "length (history ?c) = min (length acts) limit"
    using snoc by auto
  have len: "length (history (saveToHistoryWith limit now ?d)) = min (Suc (length acts)) limit"
  proof (cases "limit < length (take (nat (historyStep ?d + 1)) (history ?d)
                                  @ [\<lparr>imageData = im, timestamp = now\<rparr>])")
    case True
    then show ?thesis using s(1)[OF True] ih s(3) by (simp add: min_def split: if_splits)
  next
    case False
    then show ?thesis using s(2)[OF False] ih s(3) by (simp add: min_def split: if_splits)
  qed
  have "canvasRef (saveToHistoryWith limit now ?d) \<noteq> None"
    by (simp add: saveToHistoryWith_def Let_def)
  then show ?case using st len s(4) by simp
qed

lemma edits_props: "list_all isPush (edits n) \<and> length (edits n) = n"
  by (induction n) simp_all

lemma length_snapshots [simp]: "length (snapshots n) = n"
  by (induction n) simp_all

lemma snapshots_Nil [simp]: "(snapshots n = []) = (n = 0)"
  by (cases n) simp_all

lemma canvasRef_saveToHistoryWith [simp]:
  "canvasRef (saveToHistoryWith limit now c) = canvasRef c"
  by (simp add: saveToHistoryWith_def Let_def split: option.splits)

section \<open>The claims about the history\<close>

text \<open>
  C3, amended. In a component whose history is within its limit and whose cursor is
  inside it, a save that makes the list longer than the limit drops the oldest snapshot
  and leaves the cursor as it was, every other save adds one to the cursor; in both
  cases the cursor is then the last index and the snapshot there is the one just saved.
\<close>

theorem saveToHistory_cursor_on_saved:
  assumes "historyOk limit c" and "canvasRef c = Some img" and "0 < limit"
  shows "(limit < length (slice0 (history c) (historyStep c + 1) @ [\<lparr>imageData = img, timestamp = now\<rparr>])
            \<longrightarrow> history (saveToHistoryWith limit now c)
                  = tl (slice0 (history c) (historyStep c + 1) @ [\<lparr>imageData = img, timestamp = now\<rparr>])
                \<and> historyStep (saveToHistoryWith limit now c) = historyStep c)
       \<and> (\<not> limit < length (slice0 (history c) (historyStep c + 1) @ [\<lparr>imageData = img, timestamp = now\<rparr>])
            \<longrightarrow> history (saveToHistoryWith limit now c)
                  = slice0 (history c) (historyStep c + 1) @ [\<lparr>imageData = img, timestamp = now\<rparr>]
                \<and> historyStep (saveToHistoryWith limit now c) = historyStep c + 1)
       \<and> historyStep (saveToHistoryWith limit now c)
            = int (length (history (saveToHistoryWith limit now c))) - 1
       \<and> elemAt (history (saveToHistoryWith limit now c)) (historyStep (saveToHistoryWith limit now c))
            = Some \<lparr>imageData = img, timestamp = now\<rparr>"
proof -
  note s = slice0_cursor(1)[OF assms(1)] push_shape(1,2)[OF assms(1,2), of now]
  show ?thesis
    unfolding s(1)
    using s(2,3) push_cursor_tail[OF assms(1,2), of now] push_last[OF assms, of now]
    by auto
qed

theorem saveToHistory_cursor_on_saved_witness:
  "historyOk 50 fullHistory \<and> canvasRef fullHistory = Some (shade 50) \<and>
   history (saveToHistory 7 fullHistory) = tl (history fullHistory @ [\<lparr>imageData = shade 50, timestamp = 7\<rparr>]) \<and>
   historyStep (saveToHistory 7 fullHistory) = 49 \<and>
   elemAt (history (saveToHistory 7 fullHistory)) 49 = Some \<lparr>imageData = shade 50, timestamp = 7\<rparr>"
proof -
  have ok: "historyOk 50 fullHistory" by (simp add: historyOk_def fullHistory_def)
  have cv: "canvasRef fullHistory = Some (shade 50)" by (simp add: fullHistory_def)
  have sl: "slice0 (history fullHistory) 50 = history fullHistory"
    by (simp add: slice0_def fullHistory_def)
  have st: "historyStep fullHistory = 49" "length (history fullHistory) = 50"
    by (simp_all add: fullHistory_def)
  have big: "50 < length (slice0 (history fullHistory) (historyStep fullHistory + 1)
                           @ [\<lparr>imageData = shade 50, timestamp = 7\<rparr>])"
    by (simp add: st sl)
  have pos: "(0::nat) < 50" by simp
  note t = saveToHistory_cursor_on_saved[OF ok cv pos, of 7]
  from t big have a: "history (saveToHistoryWith 50 7 fullHistory)
      = tl (slice0 (history fullHistory) (historyStep fullHistory + 1)
            @ [\<lparr>imageData = shade 50, timestamp = 7\<rparr>])"
    and b: "historyStep (saveToHistoryWith 50 7 fullHistory) = historyStep fullHistory"
    by blast+
  from t have e: "elemAt (history (saveToHistoryWith 50 7 fullHistory))
      (historyStep (saveToHistoryWith 50 7 fullHistory)) = Some \<lparr>imageData = shade 50, timestamp = 7\<rparr>"
    by blast
  show ?thesis
    using ok cv a b e[unfolded b] by (simp add: st sl saveToHistory_def)
qed

theorem saveToHistory_cursor_one_short_counterexample:
  "50 < length (slice0 (history fullHistory) (historyStep fullHistory + 1)
                 @ [\<lparr>imageData = shade 50, timestamp = 7\<rparr>]) \<and>
   historyStep (saveToHistory 7 fullHistory)
     \<noteq> int (length (history (saveToHistory 7 fullHistory))) - 2 \<and>
   historyStep (saveToHistory 7 fullHistory)
     = int (length (history (saveToHistory 7 fullHistory))) - 1 \<and>
   elemAt (history (saveToHistory 7 fullHistory)) (historyStep (saveToHistory 7 fullHistory))
     = Some \<lparr>imageData = shade 50, timestamp = 7\<rparr>"
  by (simp add: saveToHistory_def saveToHistoryWith_def fullHistory_def slice0_def elemAt_def
        Let_def eval_nat_numeral)

text \<open>
  C4. From the initial state, after any sequence of edits, undos and redos the history
  holds at most \<open>limit\<close> snapshots; after a sequence of \<open>n\<close> edits alone it holds
  \<open>min n limit\<close> snapshots, hence exactly \<open>limit\<close> after every edit from the
  \<open>limit\<close>-th on.
\<close>

theorem history_length_bounded:
  "length (history (run limit acts (initial col img))) \<le> limit \<and>
   (list_all isPush acts \<longrightarrow>
      length (history (run limit acts (initial col img))) = min (length acts) limit \<and>
      (limit \<le> length acts \<longrightarrow> length (history (run limit acts (initial col img))) = limit))"
proof -
  have "historyOk limit (run limit acts (initial col img))" by (rule run_ok[OF initial_ok])
  then have "length (history (run limit acts (initial col img))) \<le> limit"
    by (simp add: historyOk_def)
  then show ?thesis using pushes_shape[of acts limit col img] by auto
qed

theorem history_length_bounded_witness:
  "list_all isPush (edits 51) \<and> 50 \<le> length (edits 51) \<and>
   length (history (run 50 (edits 51) (initial ''#000000'' (shade 0)))) = 50 \<and>
   length (history (run 50 (edits 51 @ [Undo, Undo, Redo]) (initial ''#000000'' (shade 0)))) \<le> 50"
  using history_length_bounded[of 50 "edits 51" "''#000000''" "shade 0"]
    history_length_bounded[of 50 "edits 51 @ [Undo, Undo, Redo]" "''#000000''" "shade 0"]
    edits_props[of 51]
  by simp

text \<open>
  C6. With the cursor before the last snapshot, a save keeps the snapshots up to and
  including the cursor, drops the later ones and appends the new snapshot; after it no
  redo is possible.
\<close>

theorem save_after_undo_discards_redo:
  assumes "historyOk limit c" and "canvasRef c = Some img"
    and "historyStep c < int (length (history c)) - 1"
  shows "history (saveToHistoryWith limit now c)
           = take (nat (historyStep c) + 1) (history c) @ [\<lparr>imageData = img, timestamp = now\<rparr>]
         \<and> historyStep (saveToHistoryWith limit now c) = historyStep c + 1
         \<and> \<not> canRedo (saveToHistoryWith limit now c)"
proof -
  have ne: "history c \<noteq> []" using assms(1,3) by (auto simp: historyOk_def)
  then have ge: "0 \<le> historyStep c" using assms(1) by (simp add: historyOk_def)
  have n: "nat (historyStep c + 1) = nat (historyStep c) + 1" using ge by simp
  have "nat (historyStep c) + 1 < length (history c)" using assms(3) ge by linarith
  moreover have "length (history c) \<le> limit" using assms(1) by (simp add: historyOk_def)
  ultimately have small: "\<not> limit < length (take (nat (historyStep c + 1)) (history c)
                              @ [\<lparr>imageData = img, timestamp = now\<rparr>])"
    by (simp add: n)
  show ?thesis
    using push_shape(2)[OF assms(1,2) small] push_cursor_tail[OF assms(1,2), of now]
    by (simp add: n canRedo_def)
qed

theorem save_after_undo_discards_redo_witness:
  "historyOk 50 threeAtFirst \<and> canvasRef threeAtFirst = Some (shade 7) \<and>
   historyStep threeAtFirst < int (length (history threeAtFirst)) - 1 \<and>
   canRedo threeAtFirst \<and>
   history (saveToHistory 9 threeAtFirst)
     = [\<lparr>imageData = shade 0, timestamp = 0\<rparr>, \<lparr>imageData = shade 7, timestamp = 9\<rparr>] \<and>
   \<not> canRedo (saveToHistory 9 threeAtFirst)"
proof -
  have ok: "historyOk 50 threeAtFirst"
    by (simp add: historyOk_def threeAtFirst_def eval_nat_numeral)
  have cv: "canvasRef threeAtFirst = Some (shade 7)" by (simp add: threeAtFirst_def)
  have lt: "historyStep threeAtFirst < int (length (history threeAtFirst)) - 1"
    by (simp add: threeAtFirst_def)
  have h: "take (Suc (nat (historyStep threeAtFirst))) (history threeAtFirst)
             = [\<lparr>imageData = shade 0, timestamp = 0\<rparr>]"
    by (simp add: threeAtFirst_def eval_nat_numeral)
  have r: "canRedo threeAtFirst" by (simp add: canRedo_def threeAtFirst_def)
  show ?thesis
    using save_after_undo_discards_redo[OF ok cv lt, of 9] ok cv lt r
    by (simp add: h saveToHistory_def)
qed

text \<open>
  C7. Where an undo moves the cursor (a canvas is mounted, the cursor is above 0 and
  inside the list), an undo followed at once by a redo succeeds, leaves the history as it
  was, puts the cursor back and paints the snapshot the cursor referenced before.
\<close>

theorem undo_redo_restores:
  assumes "canvasRef c = Some img" and "0 < historyStep c"
    and "historyStep c < int (length (history c))"
  shows "\<exists>c1 c2. undo c = Inr c1 \<and> redo c1 = Inr c2 \<and>
           historyStep c1 = historyStep c - 1 \<and>
           historyStep c2 = historyStep c \<and> history c2 = history c \<and>
           canvasRef c2 = Some (imageData (history c ! nat (historyStep c)))"
proof -
  let ?prev = "history c ! nat (historyStep c - 1)"
  let ?c1 = "c\<lparr>canvasRef := Some (imageData ?prev), historyStep := historyStep c - 1\<rparr>"
  let ?cur = "history c ! nat (historyStep c)"
  let ?c2 = "?c1\<lparr>canvasRef := Some (imageData ?cur), historyStep := historyStep c\<rparr>"
  have u: "undo c = Inr ?c1"
    using assms by (simp add: undo_def elemAt_def Let_def)
  have r: "redo ?c1 = Inr ?c2"
    using assms by (simp add: redo_def elemAt_def Let_def)
  show ?thesis using u r by simp
qed

theorem undo_redo_restores_witness:
  "canvasRef threeAtLast = Some (shade 2) \<and> 0 < historyStep threeAtLast \<and>
   historyStep threeAtLast < int (length (history threeAtLast)) \<and>
   (\<exists>c1 c2. undo threeAtLast = Inr c1 \<and> redo c1 = Inr c2 \<and> canvasRef c1 = Some (shade 1) \<and>
      historyStep c1 = 1 \<and> historyStep c2 = 2 \<and> canvasRef c2 = Some (shade 2))"
proof -
  have cv: "canvasRef threeAtLast = Some (shade 2)" by (simp add: threeAtLast_def)
  have p: "0 < historyStep threeAtLast" by (simp add: threeAtLast_def)
  have l: "historyStep threeAtLast < int (length (history threeAtLast))"
    by (simp add: threeAtLast_def)
  from undo_redo_restores[OF cv p l] obtain c1 c2 where
    u: "undo threeAtLast = Inr c1" and r: "redo c1 = Inr c2"
    and s1: "historyStep c1 = historyStep threeAtLast - 1"
    and s2: "historyStep c2 = historyStep threeAtLast"
    and cr: "canvasRef c2 = Some (imageData (history threeAtLast ! nat (historyStep threeAtLast)))"
    by blast
  have c1: "canvasRef c1 = Some (shade 1)"
    using u by (auto simp: undo_def threeAtLast_def elemAt_def Let_def eval_nat_numeral)
  have "imageData (history threeAtLast ! nat (historyStep threeAtLast)) = shade 2"
    by (simp add: threeAtLast_def eval_nat_numeral)
  then show ?thesis using cv p l u r s1 s2 cr c1 by (auto simp: threeAtLast_def)
qed

section \<open>The claim about the hex parser\<close>

text \<open>
  C9, amended. For a string that is not six hex digits, with or without a leading
  \<^verbatim>\<open>#\<close>, \<^verbatim>\<open>hexToRgb\<close> raises no error: it answers opaque black, the colour it
  also answers for \<^verbatim>\<open>#000000\<close>.
\<close>

theorem hexToRgb_malformed_is_black:
  assumes "\<not> (\<exists>ds. length ds = 6 \<and> list_all isHexDigit ds \<and> (hex = ds \<or> hex = CHR ''#'' # ds))"
  shows "hexToRgb hex = \<lparr>chan_r = Some 0, chan_g = Some 0, chan_b = Some 0, chan_a = Some 255\<rparr>
         \<and> hexToRgb hex = hexToRgb ''#000000''"
proof -
  have "hexExec hex = None"
  proof (rule ccontr)
    assume "hexExec hex \<noteq> None"
    then have "\<exists>ds. length ds = 6 \<and> list_all isHexDigit ds \<and> (hex = ds \<or> hex = CHR ''#'' # ds)"
      by (auto simp: hexExec_def Let_def split: list.splits if_splits)
    then show False using assms by simp
  qed
  moreover have "hexToRgb ''#000000''
      = \<lparr>chan_r = Some 0, chan_g = Some 0, chan_b = Some 0, chan_a = Some 255\<rparr>"
    by (simp add: hexToRgb_def hexExec_def isHexDigit_def parseInt16_def hexDigitValue_def Let_def)
  ultimately show ?thesis by (simp add: hexToRgb_def)
qed

theorem hexToRgb_malformed_is_black_witness:
  "\<not> (\<exists>ds. length ds = 6 \<and> list_all isHexDigit ds \<and> (''red'' = ds \<or> ''red'' = CHR ''#'' # ds)) \<and>
   hexToRgb ''red'' = \<lparr>chan_r = Some 0, chan_g = Some 0, chan_b = Some 0, chan_a = Some 255\<rparr>"
proof -
  have m: "\<not> (\<exists>ds. length ds = 6 \<and> list_all isHexDigit ds \<and> (''red'' = ds \<or> ''red'' = CHR ''#'' # ds))"
    by auto
  show ?thesis using hexToRgb_malformed_is_black[OF m] m by simp
qed

theorem hexToRgb_parse_error_counterexample:
  "hexExec ''#12345'' = None \<and>
   hexToRgb ''#12345'' = \<lparr>chan_r = Some 0, chan_g = Some 0, chan_b = Some 0, chan_a = Some 255\<rparr> \<and>
   hexToRgb ''#12345'' = hexToRgb ''#000000''"
  by (simp add: hexToRgb_def hexExec_def isHexDigit_def parseInt16_def hexDigitValue_def Let_def)

section \<open>The whole call\<close>

lemma definedColor_hexToRgb: "definedColor (hexToRgb hex)"
  by (simp add: hexToRgb_def definedColor_def split: option.splits prod.splits)

lemma canvasRef_saveToHistory [simp]: "canvasRef (saveToHistory now c) = canvasRef c"
  by (simp add: saveToHistory_def)

lemma floodFill_canvas:
  assumes "canvasRef c = Some canvas"
    and "\<not> colorsMatch (getPixelColor (img_data canvas) startX startY (img_width canvas)) (hexToRgb (color c))"
  shows "canvasRef (floodFill startX startY now c) =
           Some (canvas\<lparr>img_data := pixels (floodFill_loop (img_width canvas) (img_height canvas)
                    (getPixelColor (img_data canvas) startX startY (img_width canvas))
                    (hexToRgb (color c)) (fillStart (img_data canvas) startX startY))\<rparr>)"
  using assms by (simp add: floodFill_def Let_def)

lemma floodFill_trace_Some:
  assumes "canvasRef c = Some canvas" and "floodFill_trace startX startY c = Some final"
  shows "\<not> colorsMatch (getPixelColor (img_data canvas) startX startY (img_width canvas)) (hexToRgb (color c))"
    and "final = floodFill_loop (img_width canvas) (img_height canvas)
                    (getPixelColor (img_data canvas) startX startY (img_width canvas))
                    (hexToRgb (color c)) (fillStart (img_data canvas) startX startY)"
  using assms by (auto simp: floodFill_trace_def Let_def split: if_splits)

lemma loop_seed_outside:
  assumes "\<not> (0 \<le> x \<and> x < int cw \<and> 0 \<le> y \<and> y < int ch)"
  shows "floodFill_loop cw ch tc fc (fillStart ps x y)
           = \<lparr>pixels = ps, stack = [], visited = {}, iterations = 1, writes = []\<rparr>"
proof -
  have st: "stack (fillStart ps x y) = (x, y) # []" by (simp add: fillStart_def)
  have nf: "\<not> fills cw ch tc (fillStart ps x y) x y" using assms by (auto simp: fills_def)
  have "floodFill_loop cw ch tc fc (fillStart ps x y)
          = floodFill_loop cw ch tc fc (floodFill_body cw ch tc fc (fillStart ps x y))"
    by (subst floodFill_loop.simps) (simp add: fillStart_def)
  also have "floodFill_body cw ch tc fc (fillStart ps x y)
          = \<lparr>pixels = ps, stack = [], visited = {}, iterations = 1, writes = []\<rparr>"
    using body_skip[OF st nf, of fc] by (simp add: fillStart_def)
  also have "floodFill_loop cw ch tc fc \<lparr>pixels = ps, stack = [], visited = {}, iterations = 1, writes = []\<rparr>
          = \<lparr>pixels = ps, stack = [], visited = {}, iterations = 1, writes = []\<rparr>"
    by (subst floodFill_loop.simps) simp
  finally show ?thesis .
qed

lemma outside_seed_call:
  assumes cv: "canvasRef c = Some canvas"
    and out: "\<not> (0 \<le> startX \<and> startX < int (img_width canvas) \<and>
                 0 \<le> startY \<and> startY < int (img_height canvas))"
  shows "floodFill startX startY now c =
           (if colorsMatch (getPixelColor (img_data canvas) startX startY (img_width canvas))
                 (hexToRgb (color c))
            then c else saveToHistory now c)"
    and "pixelsChanged startX startY c = 0"
proof -
  have same: "c\<lparr>canvasRef := Some canvas\<rparr> = c"
    using cv by (cases c) simp
  show "floodFill startX startY now c =
           (if colorsMatch (getPixelColor (img_data canvas) startX startY (img_width canvas))
                 (hexToRgb (color c))
            then c else saveToHistory now c)"
    using cv by (simp add: floodFill_def Let_def loop_seed_outside[OF out] same)
  show "pixelsChanged startX startY c = 0"
    using cv by (simp add: pixelsChanged_def floodFill_trace_def Let_def loop_seed_outside[OF out])
qed

section \<open>The claims about the flood fill\<close>

text \<open>
  C1. On a canvas whose buffer has four bytes for each of its pixels, with the seed
  inside the canvas and a fill colour other than the colour at the seed, the call leaves
  a canvas of the same size in which every pixel of the region of the seed holds the fill
  colour and every other pixel holds the colour it had.
\<close>

theorem floodFill_recolours_region:
  assumes "canvasRef c = Some canvas"
    and "length (img_data canvas) = 4 * img_width canvas * img_height canvas"
    and "0 \<le> startX" and "startX < int (img_width canvas)"
    and "0 \<le> startY" and "startY < int (img_height canvas)"
    and "hexToRgb (color c) \<noteq> getPixelColor (img_data canvas) startX startY (img_width canvas)"
  shows "\<exists>canvas'. canvasRef (floodFill startX startY now c) = Some canvas' \<and>
           img_width canvas' = img_width canvas \<and> img_height canvas' = img_height canvas \<and>
           length (img_data canvas') = length (img_data canvas) \<and>
           (\<forall>x y. 0 \<le> x \<and> x < int (img_width canvas) \<and> 0 \<le> y \<and> y < int (img_height canvas) \<longrightarrow>
              getPixelColor (img_data canvas') x y (img_width canvas) =
                (if (x, y) \<in> region (img_width canvas) (img_height canvas) (img_data canvas)
                      (getPixelColor (img_data canvas) startX startY (img_width canvas))
                      (startX, startY)
                 then hexToRgb (color c)
                 else getPixelColor (img_data canvas) x y (img_width canvas)))"
proof -
  let ?w = "img_width canvas" and ?h = "img_height canvas" and ?B = "img_data canvas"
  let ?final = "floodFill_loop ?w ?h (getPixelColor ?B startX startY ?w) (hexToRgb (color c))
                  (fillStart ?B startX startY)"
  have nm: "\<not> colorsMatch (getPixelColor ?B startX startY ?w) (hexToRgb (color c))"
    using assms(7) by (auto simp: colorsMatch_eq)
  note cf = floodFill_canvas[OF assms(1) nm, of now]
  note lr = loop_fills_region[OF assms(2) definedColor_hexToRgb[of "color c"],
              where x = startX and y = startY]
  show ?thesis
    unfolding cf using lr(1) lr(3) by simp
qed

theorem floodFill_recolours_region_witness:
  "canvasRef (painter halves2x2 ''#ff0000'') = Some halves2x2 \<and>
   length (img_data halves2x2) = 4 * img_width halves2x2 * img_height halves2x2 \<and>
   hexToRgb ''#ff0000'' \<noteq> getPixelColor (img_data halves2x2) 0 0 (img_width halves2x2) \<and>
   (\<exists>canvas'. canvasRef (floodFill 0 0 7 (painter halves2x2 ''#ff0000'')) = Some canvas' \<and>
      getPixelColor (img_data canvas') 0 1 2 = hexToRgb ''#ff0000'' \<and>
      getPixelColor (img_data canvas') 1 1 2 = getPixelColor (img_data halves2x2) 1 1 2)"
proof -
  let ?c = "painter halves2x2 ''#ff0000''"
  let ?white = "\<lparr>chan_r = Some 255, chan_g = Some 255, chan_b = Some 255, chan_a = Some 255\<rparr>"
  have cv: "canvasRef ?c = Some halves2x2" by (simp add: painter_def)
  have col: "color ?c = ''#ff0000''" by (simp add: painter_def)
  have dims: "img_width halves2x2 = 2" "img_height halves2x2 = 2" by (simp_all add: halves2x2_def)
  have len: "length (img_data halves2x2) = 4 * img_width halves2x2 * img_height halves2x2"
    by (simp add: halves2x2_def)
  have px: "getPixelColor (img_data halves2x2) 0 0 2 = ?white"
    "getPixelColor (img_data halves2x2) 0 1 2 = ?white"
    "getPixelColor (img_data halves2x2) 1 1 2 \<noteq> ?white"
    by (simp_all add: getPixelColor_def byteAt_def halves2x2_def Let_def)
  have red: "hexToRgb ''#ff0000'' = \<lparr>chan_r = Some 255, chan_g = Some 0, chan_b = Some 0, chan_a = Some 255\<rparr>"
    by (simp add: hexToRgb_def hexExec_def isHexDigit_def parseInt16_def hexDigitValue_def Let_def)
  have diff: "hexToRgb (color ?c) \<noteq> getPixelColor (img_data halves2x2) 0 0 (img_width halves2x2)"
    by (simp add: col dims px red)
  have r0: "(0, 0) \<in> region 2 2 (img_data halves2x2) ?white (0, 0)"
    by (rule region.seed) (simp_all add: px)
  have r1: "(0, 1) \<in> region 2 2 (img_data halves2x2) ?white (0, 0)"
    by (rule region.step[OF r0]) (simp_all add: px)
  have r2: "(1, 1) \<notin> region 2 2 (img_data halves2x2) ?white (0, 0)"
    using region_props[of 1 1 2 2 "img_data halves2x2" ?white "(0, 0)"] px(3) by auto
  from floodFill_recolours_region[OF cv len _ _ _ _ diff, where now = 7]
  obtain canvas' where c': "canvasRef (floodFill 0 0 7 ?c) = Some canvas'"
    and all: "\<forall>x y. 0 \<le> x \<and> x < int (img_width halves2x2) \<and> 0 \<le> y \<and> y < int (img_height halves2x2) \<longrightarrow>
              getPixelColor (img_data canvas') x y (img_width halves2x2) =
                (if (x, y) \<in> region (img_width halves2x2) (img_height halves2x2) (img_data halves2x2)
                      (getPixelColor (img_data halves2x2) 0 0 (img_width halves2x2)) (0, 0)
                 then hexToRgb (color ?c)
                 else getPixelColor (img_data halves2x2) x y (img_width halves2x2))"
    by (auto simp: dims)
  have a: "getPixelColor (img_data canvas') 0 1 2 = hexToRgb ''#ff0000''"
    using all[rule_format, of 0 1] r1 by (simp add: dims px col)
  have b: "getPixelColor (img_data canvas') 1 1 2 = getPixelColor (img_data halves2x2) 1 1 2"
    using all[rule_format, of 1 1] r2 by (simp add: dims px col)
  show ?thesis using cv len diff c' a b by (auto simp: col dims)
qed

text \<open>
  C5. When the colour at the seed matches the fill colour on all four channels, the call
  returns the component as it was (same canvas, same history, same cursor), enters no
  loop and writes no pixel.
\<close>

theorem floodFill_same_colour_returns:
  assumes "canvasRef c = Some canvas"
    and "colorsMatch (getPixelColor (img_data canvas) startX startY (img_width canvas))
           (hexToRgb (color c))"
  shows "floodFill startX startY now c = c \<and> floodFill_trace startX startY c = None \<and>
         pixelsChanged startX startY c = 0"
  using assms by (simp add: floodFill_def floodFill_trace_def pixelsChanged_def Let_def)

theorem floodFill_same_colour_returns_witness:
  "canvasRef (painter (shade 0) ''#000000'') = Some (shade 0) \<and>
   colorsMatch (getPixelColor (img_data (shade 0)) 0 0 (img_width (shade 0))) (hexToRgb ''#000000'') \<and>
   floodFill 0 0 7 (painter (shade 0) ''#000000'') = painter (shade 0) ''#000000'' \<and>
   history (floodFill 0 0 7 (painter (shade 0) ''#000000'')) = [] \<and>
   pixelsChanged 0 0 (painter (shade 0) ''#000000'') = 0"
proof -
  let ?c = "painter (shade 0) ''#000000''"
  have cv: "canvasRef ?c = Some (shade 0)" by (simp add: painter_def)
  have col: "color ?c = ''#000000''" by (simp add: painter_def)
  have fc: "hexToRgb ''#000000''
      = \<lparr>chan_r = Some 0, chan_g = Some 0, chan_b = Some 0, chan_a = Some 255\<rparr>"
    by (simp add: hexToRgb_def hexExec_def isHexDigit_def parseInt16_def hexDigitValue_def Let_def)
  have px: "getPixelColor (img_data (shade 0)) 0 0 (img_width (shade 0))
      = \<lparr>chan_r = Some 0, chan_g = Some 0, chan_b = Some 0, chan_a = Some 255\<rparr>"
    by (simp add: getPixelColor_def byteAt_def shade_def Let_def)
  have m: "colorsMatch (getPixelColor (img_data (shade 0)) 0 0 (img_width (shade 0)))
             (hexToRgb (color ?c))"
    by (simp only: col fc px colorsMatch_eq)
  have h: "history ?c = []" by (simp add: painter_def)
  show ?thesis
    using floodFill_same_colour_returns[OF cv m, of 7] cv m h by (simp add: col)
qed

text \<open>
  C8, amended. For a seed outside the canvas the call raises no error and changes no
  pixel. Unless the colour read at the index computed from the seed (a pixel of another
  row, or \<^verbatim>\<open>undefined\<close> channels) matches the fill colour, it completes as a fill
  does, saving a snapshot of the unchanged canvas to the history.
\<close>

theorem floodFill_seed_outside:
  assumes "canvasRef c = Some canvas"
    and "\<not> (0 \<le> startX \<and> startX < int (img_width canvas) \<and>
             0 \<le> startY \<and> startY < int (img_height canvas))"
  shows "canvasRef (floodFill startX startY now c) = Some canvas \<and>
         pixelsChanged startX startY c = 0 \<and>
         floodFill startX startY now c =
           (if colorsMatch (getPixelColor (img_data canvas) startX startY (img_width canvas))
                 (hexToRgb (color c))
            then c else saveToHistory now c)"
  using outside_seed_call(1)[OF assms, of now] outside_seed_call(2)[OF assms] assms(1)
  by simp

theorem floodFill_seed_outside_witness:
  "canvasRef (painter (shade 255) ''#000000'') = Some (shade 255) \<and>
   \<not> (0 \<le> (5::int) \<and> 5 < int (img_width (shade 255)) \<and> 0 \<le> (5::int) \<and> 5 < int (img_height (shade 255))) \<and>
   canvasRef (floodFill 5 5 7 (painter (shade 255) ''#000000'')) = Some (shade 255) \<and>
   floodFill 5 5 7 (painter (shade 255) ''#000000'') = saveToHistory 7 (painter (shade 255) ''#000000'')"
proof -
  let ?c = "painter (shade 255) ''#000000''"
  have cv: "canvasRef ?c = Some (shade 255)" by (simp add: painter_def)
  have out: "\<not> (0 \<le> (5::int) \<and> 5 < int (img_width (shade 255)) \<and>
                 0 \<le> (5::int) \<and> 5 < int (img_height (shade 255)))"
    by (simp add: shade_def)
  have nm: "\<not> colorsMatch (getPixelColor (img_data (shade 255)) 5 5 (img_width (shade 255)))
                (hexToRgb (color ?c))"
    by (simp add: colorsMatch_def getPixelColor_def byteAt_def shade_def hexToRgb_def Let_def
          split: option.splits)
  show ?thesis
    using floodFill_seed_outside[OF cv out, of 7] cv out nm by simp
qed

theorem floodFill_out_of_bounds_counterexample:
  "\<not> (5 < int (img_width (shade 255))) \<and>
   floodFill 5 5 7 (painter (shade 255) ''#000000'')
     = \<lparr>canvasRef = Some (shade 255), color = ''#000000'',
        history = [\<lparr>imageData = shade 255, timestamp = 7\<rparr>], historyStep = 0\<rparr> \<and>
   floodFill 5 5 7 (painter (shade 255) ''#000000'') \<noteq> painter (shade 255) ''#000000''"
  by code_simp

text \<open>
  C10. In one call the coordinates handed to \<^verbatim>\<open>setPixelColor\<close> are pairwise
  different, they are exactly the visited coordinates, and there are at most width times
  height of them. On a buffer with four bytes per pixel each written pixel ends with the
  fill colour, which does not match the target colour.
\<close>

theorem floodFill_writes_each_pixel_once:
  assumes "canvasRef c = Some canvas" and "floodFill_trace startX startY c = Some final"
  shows "distinct (writes final) \<and> set (writes final) = visited final \<and>
         length (writes final) \<le> img_width canvas * img_height canvas \<and>
         pixelsChanged startX startY c = length (writes final) \<and>
         (length (img_data canvas) = 4 * img_width canvas * img_height canvas \<longrightarrow>
            (\<forall>p \<in> set (writes final).
               getPixelColor (pixels final) (fst p) (snd p) (img_width canvas) = hexToRgb (color c) \<and>
               \<not> colorsMatch (getPixelColor (pixels final) (fst p) (snd p) (img_width canvas))
                    (getPixelColor (img_data canvas) startX startY (img_width canvas))))"
proof -
  let ?w = "img_width canvas" and ?h = "img_height canvas" and ?B = "img_data canvas"
  let ?tc = "getPixelColor ?B startX startY ?w" and ?fc = "hexToRgb (color c)"
  note tr = floodFill_trace_Some[OF assms]
  have ci: "countInv ?w ?h final"
    unfolding tr(2) using loop_counts[of ?w ?h ?tc ?fc ?B startX startY] by simp
  have a: "distinct (writes final)" "set (writes final) = visited final"
    using ci by (simp_all add: countInv_def)
  have b: "length (writes final) \<le> ?w * ?h" by (rule countInv_writes_bound[OF ci])
  have d: "pixelsChanged startX startY c = length (writes final)"
    using assms(2) by (simp add: pixelsChanged_def)
  have e: "getPixelColor (pixels final) (fst p) (snd p) ?w = ?fc \<and>
           \<not> colorsMatch (getPixelColor (pixels final) (fst p) (snd p) ?w) ?tc"
    if len: "length ?B = 4 * ?w * ?h" and p: "p \<in> set (writes final)" for p
  proof -
    note lr = loop_fills_region[OF len definedColor_hexToRgb[of "color c"],
                where x = startX and y = startY, folded tr(2)]
    have reg: "(fst p, snd p) \<in> region ?w ?h ?B ?tc (startX, startY)"
      using p a(2) lr(2) by simp
    note rp = region_props[OF reg]
    have "getPixelColor (pixels final) (fst p) (snd p) ?w = ?fc"
      using lr(3)[of "fst p" "snd p"] rp reg by simp
    then show ?thesis using tr(1) by (auto simp: colorsMatch_eq)
  qed
  show ?thesis using a b d e by blast
qed

theorem floodFill_writes_each_pixel_once_witness:
  "canvasRef (painter white2x2 ''#000000'') = Some white2x2 \<and>
   length (img_data white2x2) = 4 * img_width white2x2 * img_height white2x2 \<and>
   (\<exists>final. floodFill_trace 0 0 (painter white2x2 ''#000000'') = Some final \<and>
      writes final = [(0, 0), (0, 1), (1, 1), (1, 0)] \<and> distinct (writes final) \<and>
      length (writes final) \<le> 4 \<and>
      getPixelColor (pixels final) 1 1 2 = hexToRgb ''#000000'')"
proof -
  let ?c = "painter white2x2 ''#000000''"
  have cv: "canvasRef ?c = Some white2x2" by (simp add: painter_def)
  have col: "color ?c = ''#000000''" by (simp add: painter_def)
  have dims: "img_width white2x2 = 2" "img_height white2x2 = 2" by (simp_all add: white2x2_def)
  have len: "length (img_data white2x2) = 4 * img_width white2x2 * img_height white2x2"
    by (simp add: white2x2_def)
  have w: "map_option writes (floodFill_trace 0 0 ?c) = Some [(0, 0), (0, 1), (1, 1), (1, 0)]"
    by code_simp
  then obtain final where tr: "floodFill_trace 0 0 ?c = Some final"
    and wf: "writes final = [(0, 0), (0, 1), (1, 1), (1, 0)]" by auto
  note t = floodFill_writes_each_pixel_once[OF cv tr]
  have mem: "(1, 1) \<in> set (writes final)" by (simp add: wf)
  from t len mem have "getPixelColor (pixels final) (fst (1::int, 1::int)) (snd (1::int, 1::int)) (img_width white2x2)
      = hexToRgb (color ?c)" by blast
  then have px: "getPixelColor (pixels final) 1 1 2 = hexToRgb ''#000000''"
    by (simp add: dims col)
  show ?thesis using cv len tr wf t px by (simp add: dims)
qed

text \<open>
  C2, amended. Both variants of the loop end. The loop of the first variant has no cap:
  it ends with an empty stack after one round for the seed and four rounds for each
  pixel written, hence after at most \<open>1 + 4 * width * height\<close> rounds. The loop of the
  second variant ends after at most \<^verbatim>\<open>maxIterations\<close> rounds, the number of pixels of
  its canvas.
\<close>

theorem floodFill_loops_end:
  "(canvasRef c = Some canvas \<and> floodFill_trace startX startY c = Some final \<longrightarrow>
      stack final = [] \<and> iterations final = 1 + 4 * pixelsChanged startX startY c \<and>
      iterations final \<le> 1 + 4 * (img_width canvas * img_height canvas))
   \<and> (floodFill_capped_trace width height dpr startX startY c = Some capped \<longrightarrow>
      iterations capped \<le> (width * dpr) * (height * dpr))"
proof (intro conjI impI)
  assume h: "canvasRef c = Some canvas \<and> floodFill_trace startX startY c = Some final"
  let ?w = "img_width canvas" and ?h = "img_height canvas" and ?B = "img_data canvas"
  let ?tc = "getPixelColor ?B startX startY ?w" and ?fc = "hexToRgb (color c)"
  note tr = floodFill_trace_Some[of c canvas startX startY final]
  have fin: "final = floodFill_loop ?w ?h ?tc ?fc (fillStart ?B startX startY)"
    using tr(2) h by blast
  have ci: "countInv ?w ?h final" and em: "stack final = []"
    unfolding fin using loop_counts[of ?w ?h ?tc ?fc ?B startX startY] by simp_all
  show "stack final = []" by (rule em)
  have it: "iterations final = 1 + 4 * length (writes final)"
    using ci em by (simp add: countInv_def)
  show "iterations final = 1 + 4 * pixelsChanged startX startY c"
    using it h by (simp add: pixelsChanged_def)
  show "iterations final \<le> 1 + 4 * (img_width canvas * img_height canvas)"
    using it countInv_writes_bound[OF ci] by simp
next
  assume h: "floodFill_capped_trace width height dpr startX startY c = Some capped"
  then have "iterations capped \<le> width * height * dpr * dpr"
    using capped_counts
    by (auto simp: floodFill_capped_trace_def Let_def split: option.splits if_splits)
  then show "iterations capped \<le> (width * dpr) * (height * dpr)"
    by (simp add: mult_ac)
qed

theorem floodFill_loops_end_witness:
  "canvasRef (painter white2x2 ''#000000'') = Some white2x2 \<and>
   (\<exists>final. floodFill_trace 0 0 (painter white2x2 ''#000000'') = Some final \<and>
      stack final = [] \<and> iterations final = 17 \<and> iterations final \<le> 1 + 4 * (2 * 2)) \<and>
   (\<exists>capped. floodFill_capped_trace 2 2 1 0 0 (painter white2x2 ''#000000'') = Some capped \<and>
      iterations capped = 4 \<and> iterations capped \<le> (2 * 1) * (2 * 1))"
proof -
  let ?c = "painter white2x2 ''#000000''"
  have cv: "canvasRef ?c = Some white2x2" by (simp add: painter_def)
  have dims: "img_width white2x2 = 2" "img_height white2x2 = 2" by (simp_all add: white2x2_def)
  have "map_option iterations (floodFill_trace 0 0 ?c) = Some 17" by code_simp
  then obtain final where tr: "floodFill_trace 0 0 ?c = Some final"
    and i1: "iterations final = 17" by auto
  have "map_option iterations (floodFill_capped_trace 2 2 1 0 0 ?c) = Some 4" by code_simp
  then obtain capped where tc: "floodFill_capped_trace 2 2 1 0 0 ?c = Some capped"
    and i2: "iterations capped = 4" by auto
  note t = floodFill_loops_end[of ?c white2x2 0 0 final 2 2 1 capped]
  have "stack final = []" using t cv tr by blast
  moreover have "iterations final \<le> 1 + 4 * (2 * 2)" using t cv tr by (simp add: dims)
  moreover have "iterations capped \<le> (2 * 1) * (2 * 1)" using t tc by simp
  ultimately show ?thesis using cv tr tc i1 i2 by simp
qed

theorem floodFill_iteration_cap_counterexample:
  "map_option iterations (floodFill_trace 0 0 (painter (shade 255) ''#000000'')) = Some 5 \<and>
   \<not> (5::nat) \<le> img_width (shade 255) * img_height (shade 255)"
  by code_simp

section \<open>The cap of the second variant in ordinary use\<close>

text \<open>
  The counter of the second variant counts every round, also the rounds that skip a
  coordinate, so the cap is reached before a region of the size of the canvas is filled:
  on a white canvas of two by two pixels the loop stops after four rounds, two pixels
  written and five coordinates left on the stack.
\<close>

lemma floodFill_capped_stops_early:
  "map_option writes (floodFill_capped_trace 2 2 1 0 0 (painter white2x2 ''#000000''))
     = Some [(0, 0), (0, 1)] \<and>
   map_option stack (floodFill_capped_trace 2 2 1 0 0 (painter white2x2 ''#000000''))
     = Some [(0, 2), (- 1, 1), (1, 1), (- 1, 0), (1, 0)]"
  by code_simp

section \<open>Two runs on small inputs\<close>

text \<open>
  With room for three snapshots, four saves leave the last three with the cursor on the
  newest; two undos move the cursor to the oldest; a save then leaves that one and the
  new one, and no redo.
\<close>

lemma history_of_capacity_three:
  "map timestamp (history (run 3 (edits 4) (initial ''#000000'' (shade 0)))) = [1, 2, 3] \<and>
   historyStep (run 3 (edits 4) (initial ''#000000'' (shade 0))) = 2 \<and>
   historyStep (run 3 (edits 4 @ [Undo, Undo]) (initial ''#000000'' (shade 0))) = 0 \<and>
   map timestamp (history (run 3 (edits 4 @ [Undo, Undo, Push (shade 9) 9]) (initial ''#000000'' (shade 0))))
     = [1, 9] \<and>
   \<not> canRedo (run 3 (edits 4 @ [Undo, Undo, Push (shade 9) 9]) (initial ''#000000'' (shade 0)))"
  by code_simp

text \<open>Filling a white canvas of five by five pixels from its centre writes all 25 pixels.\<close>

lemma fill_of_white_canvas:
  "pixelsChanged 2 2 (painter white5x5 ''#000000'') = 25 \<and>
   map_option img_data (canvasRef (floodFill 2 2 7 (painter white5x5 ''#000000'')))
     = Some (concat (replicate 25 [0, 0, 0, 255]))"
  by code_simp

end
